theory Spec2Isabelle
  imports Main
begin

section \<open>Characters and strings\<close>

text \<open>
  A Python \<open>str\<close> is a sequence of code points. The model is \<^typ>\<open>string\<close>, a list of
  \<^typ>\<open>char\<close>, where a \<^typ>\<open>char\<close> stands for the code point with the same number:
  the model covers the strings over U+0000 .. U+00FF (ASCII and the Latin-1 supplement,
  which holds the accented letters of Spanish). The character classes below are the ones
  Python's \<open>re\<close> and \<open>str\<close> use on that range.
\<close>

definition code :: "char \<Rightarrow> nat" where
  "code c = of_char c"

text \<open>The class \<open>[A-Za-z]\<close> of the regular expressions.\<close>

definition ascii_letter :: "char \<Rightarrow> bool" where
  "ascii_letter c \<longleftrightarrow> (65 \<le> code c \<and> code c \<le> 90) \<or> (97 \<le> code c \<and> code c \<le> 122)"

text \<open>The class \<open>\d\<close>: the decimal digits, which below U+0100 are \<open>0\<close> to \<open>9\<close>.\<close>

definition decimal_digit :: "char \<Rightarrow> bool" where
  "decimal_digit c \<longleftrightarrow> 48 \<le> code c \<and> code c \<le> 57"

text \<open>
  The class \<open>\w\<close> that decides \<open>\b\<close>: the underscore and every character that is
  alphanumeric for \<open>str.isalnum\<close>: the ASCII letters and digits, the ordinal indicators and
  the micro sign, the superscript digits and the vulgar fractions, and the Latin-1 letters
  (U+00C0 .. U+00FF without the multiplication and division signs).
\<close>

definition word_char :: "char \<Rightarrow> bool" where
  "word_char c \<longleftrightarrow>
     ascii_letter c \<or> decimal_digit c \<or> code c = 95
     \<or> code c = 170 \<or> code c = 181 \<or> code c = 186
     \<or> code c = 178 \<or> code c = 179 \<or> code c = 185
     \<or> (188 \<le> code c \<and> code c \<le> 190)
     \<or> (192 \<le> code c \<and> code c \<noteq> 215 \<and> code c \<noteq> 247)"

text \<open>The characters \<open>str.strip\<close> removes: those for which \<open>str.isspace\<close> holds.\<close>

definition whitespace :: "char \<Rightarrow> bool" where
  "whitespace c \<longleftrightarrow>
     (9 \<le> code c \<and> code c \<le> 13) \<or> (28 \<le> code c \<and> code c \<le> 32)
     \<or> code c = 133 \<or> code c = 160"

definition strip :: "string \<Rightarrow> string" where
  "strip s = rev (dropWhile whitespace (rev (dropWhile whitespace s)))"

text \<open>\<open>str.lower\<close>: the capital letters A-Z and U+00C0 .. U+00DE (without the
  multiplication sign) move 32 code points up; every other character stays.\<close>

definition lower_char :: "char \<Rightarrow> char" where
  "lower_char c =
     (if (65 \<le> code c \<and> code c \<le> 90) \<or> (192 \<le> code c \<and> code c \<le> 222 \<and> code c \<noteq> 215)
      then char_of (code c + 32) else c)"

definition lower :: "string \<Rightarrow> string" where
  "lower s = map lower_char s"

definition startswith :: "string \<Rightarrow> string \<Rightarrow> bool" where
  "startswith s p \<longleftrightarrow> take (length p) s = p"

definition endswith :: "string \<Rightarrow> string \<Rightarrow> bool" where
  "endswith s p \<longleftrightarrow> length p \<le> length s \<and> drop (length s - length p) s = p"

text \<open>\<open>int(numero)\<close> on a run of decimal digits.\<close>

definition int_of_digits :: "string \<Rightarrow> int" where
  "int_of_digits ds = foldl (\<lambda>a c. 10 * a + (int (code c) - 48)) 0 ds"


section \<open>Number Normalizer: \<open>traducir_numero_a_texto\<close>\<close>

text \<open>
  \<open>re.sub(r'([A-Za-z])(\d)', r'\1 \2', texto)\<close>: the scan goes left to right; a match
  takes the letter and the digit, writes them with a space between, and the scan goes on
  after the digit; where no match starts, the character is copied.
\<close>

fun sub_letter_digit :: "string \<Rightarrow> string" where
  "sub_letter_digit (a # b # cs) =
     (if ascii_letter a \<and> decimal_digit b then a # CHR '' '' # b # sub_letter_digit cs
      else a # sub_letter_digit (b # cs))"
| "sub_letter_digit cs = cs"

text \<open>\<open>re.sub(r'(\d)([A-Za-z])', r'\1 \2', texto_separado)\<close>, scanned the same way.\<close>

fun sub_digit_letter :: "string \<Rightarrow> string" where
  "sub_digit_letter (a # b # cs) =
     (if decimal_digit a \<and> ascii_letter b then a # CHR '' '' # b # sub_digit_letter cs
      else a # sub_digit_letter (b # cs))"
| "sub_digit_letter cs = cs"

text \<open>
  \<open>\b\<close> at a position: the character before (\<open>pw\<close> tells whether it is a word character;
  there is none at the start) and the character after (none at the end) differ in being
  word characters.
\<close>

definition boundary :: "bool \<Rightarrow> string \<Rightarrow> bool" where
  "boundary pw s \<longleftrightarrow> pw \<noteq> (case s of [] \<Rightarrow> False | c # _ \<Rightarrow> word_char c)"

text \<open>
  A match of \<open>\b\d+\b\<close> at the head of \<open>s\<close>, as its length: \<open>\b\<close> must hold there;
  \<open>\d+\<close> is greedy, so it first takes the whole run of digits and then gives them back
  one at a time, down to one digit, until \<open>\b\<close> holds behind what it kept.
\<close>

definition match_number :: "bool \<Rightarrow> string \<Rightarrow> nat option" where
  "match_number pw s =
     (if boundary pw s
      then List.find (\<lambda>k. boundary (word_char (s ! (k - 1))) (drop k s))
             (rev [1 ..< Suc (length (takeWhile decimal_digit s))])
      else None)"

lemma find_SomeD: "List.find P xs = Some x \<Longrightarrow> x \<in> set xs \<and> P x"
  by (induction xs) (auto split: if_splits)

lemma match_number_pos: "match_number pw s = Some k \<Longrightarrow> 0 < k"
  by (auto simp: match_number_def split: if_splits dest!: find_SomeD)

text \<open>
  \<open>re.sub(r'\b\d+\b', reemplazar_numero, texto_separado)\<close>, where \<open>reemplazar_numero\<close>
  is \<open>num2words(int(numero), lang='es')\<close>. The library \<open>num2words\<close> is not part of the
  program: it is the parameter \<open>n2w\<close>, taken to answer every number; what the library or
  \<open>int\<close> raise on runs of digits beyond their range is not modelled.
\<close>

function re_sub_number :: "(int \<Rightarrow> string) \<Rightarrow> bool \<Rightarrow> string \<Rightarrow> string" where
  "re_sub_number n2w pw [] = []"
| "re_sub_number n2w pw (c # cs) =
     (case match_number pw (c # cs) of
        Some k \<Rightarrow> n2w (int_of_digits (take k (c # cs)))
                  @ re_sub_number n2w (word_char ((c # cs) ! (k - 1))) (drop k (c # cs))
      | None \<Rightarrow> c # re_sub_number n2w (word_char c) cs)"
  by pat_completeness auto
termination
  by (relation "measure (\<lambda>(n2w, pw, s). length s)") (auto dest: match_number_pos)

definition traducir_numero_a_texto :: "(int \<Rightarrow> string) \<Rightarrow> string \<Rightarrow> string" where
  "traducir_numero_a_texto n2w texto =
     (let texto_separado = sub_letter_digit texto;
          texto_separado = sub_digit_letter texto_separado;
          texto_traducido = re_sub_number n2w False texto_separado
      in texto_traducido)"


section \<open>Text shaping in \<open>infer\<close>\<close>

text \<open>
  Lines 93 to 99 of \<open>infer\<close>: the reply text gets a leading space and a trailing
  \<open>". "\<close> where it has none, is lowercased and goes through the Number Normalizer.
  \<open>infer_gen_text\<close> is the value of \<open>gen_text\<close> that \<open>infer_process\<close> receives.
\<close>

definition shape_text :: "string \<Rightarrow> string" where
  "shape_text gen_text =
     (let gen_text = (if \<not> startswith gen_text '' '' then '' '' @ gen_text else gen_text);
          gen_text = (if \<not> endswith gen_text ''. '' then gen_text @ ''. '' else gen_text)
      in gen_text)"

definition infer_gen_text :: "(int \<Rightarrow> string) \<Rightarrow> string \<Rightarrow> string" where
  "infer_gen_text n2w gen_text =
     (let gen_text = shape_text gen_text;
          gen_text = lower gen_text;
          gen_text = traducir_numero_a_texto n2w gen_text
      in gen_text)"

text \<open>
  What a call can raise: the exceptions of the collaborators (reference-audio
  preprocessing, text generation, synthesis and its post-processing), which the program
  neither raises itself nor catches, and Python's \<open>IndexError\<close>.
\<close>

datatype error = IndexError | ServiceError

text \<open>
  \<open>infer\<close>: \<open>preprocess_ref_audio_text\<close>, \<open>infer_process\<close> and the steps after it
  (silence removal, spectrogram) are collaborators, here the parameters \<open>preprocess\<close>,
  \<open>infer_process\<close> and \<open>finish\<close>. The numeric options are constants of the call and
  are left out.
\<close>

definition infer ::
  "(string \<Rightarrow> string \<Rightarrow> error + string \<times> string) \<Rightarrow> (string \<Rightarrow> string \<Rightarrow> string \<Rightarrow> error + 'w)
   \<Rightarrow> (bool \<Rightarrow> 'w \<Rightarrow> error + 'o) \<Rightarrow> (int \<Rightarrow> string)
   \<Rightarrow> string \<Rightarrow> string \<Rightarrow> string \<Rightarrow> bool \<Rightarrow> error + 'o" where
  "infer preprocess infer_process finish n2w ref_audio_orig ref_text gen_text remove_silence =
     (case preprocess ref_audio_orig ref_text of
        Inl e \<Rightarrow> Inl e
      | Inr (ref_audio, ref_text') \<Rightarrow>
          (case infer_process ref_audio ref_text' (infer_gen_text n2w gen_text) of
             Inl e \<Rightarrow> Inl e
           | Inr final_wave \<Rightarrow> finish remove_silence final_wave))"


section \<open>Style Segment Parser: \<open>parse_speechtypes_text\<close>\<close>

text \<open>
  The rest of the pattern \<open>\{(.*?)\}\<close> behind an opening brace: \<open>.*?\<close> is lazy, so at
  each character the closing brace is tried first, and only otherwise does \<open>.\<close> take the
  character, which must not be a newline. The result is the label and the text behind the
  closing brace.
\<close>

fun lazy_label :: "string \<Rightarrow> (string \<times> string) option" where
  "lazy_label [] = None"
| "lazy_label (c # cs) =
     (if c = CHR ''}'' then Some ([], cs)
      else if c = CHR 0x0A then None
      else map_option (\<lambda>(l, r). (c # l, r)) (lazy_label cs))"

lemma lazy_label_length: "lazy_label cs = Some (l, r) \<Longrightarrow> length r < length cs"
  by (induction cs arbitrary: l) (auto split: if_splits)

text \<open>
  \<open>re.split(pattern, gen_text)\<close> with its one group: the text before each match, then
  the group, and at the end the text behind the last match. \<open>acc\<close> is the text read since
  the last match.
\<close>

function re_split_tags :: "string \<Rightarrow> string \<Rightarrow> string list" where
  "re_split_tags acc [] = [acc]"
| "re_split_tags acc (c # cs) =
     (if c = CHR ''{''
      then (case lazy_label cs of
              Some (l, r) \<Rightarrow> acc # l # re_split_tags [] r
            | None \<Rightarrow> re_split_tags (acc @ [c]) cs)
      else re_split_tags (acc @ [c]) cs)"
  by pat_completeness auto
termination
  by (relation "measure (\<lambda>(acc, s). length s)") (auto dest: lazy_label_length)

text \<open>A segment is the dictionary with the keys \<open>"style"\<close> and \<open>"text"\<close>.\<close>

record segment =
  style :: string
  seg_text :: string

text \<open>One round of the loop over \<open>range(len(tokens))\<close>, on the pair of \<open>segments\<close> and
  \<open>current_style\<close>.\<close>

definition parse_step :: "string list \<Rightarrow> nat \<Rightarrow> segment list \<times> string \<Rightarrow> segment list \<times> string" where
  "parse_step tokens i st =
     (case st of (segments, current_style) \<Rightarrow>
        if i mod 2 = 0
        then (let text = strip (tokens ! i)
              in if text \<noteq> []
                 then (segments @ [\<lparr>style = current_style, seg_text = text\<rparr>], current_style)
                 else (segments, current_style))
        else (let style = strip (tokens ! i) in (segments, style)))"

definition parse_speechtypes_text :: "string \<Rightarrow> segment list" where
  "parse_speechtypes_text gen_text =
     (let tokens = re_split_tags [] gen_text
      in fst (fold (parse_step tokens) [0 ..< length tokens] ([], ''Regular'')))"


section \<open>Conversation State and the turn\<close>

text \<open>
  A message is the dictionary with the keys \<open>"role"\<close> and \<open>"content"\<close>; the Conversation
  Log (\<open>conv_state\<close>) is a list of messages. The Transcript (\<open>history\<close>, the value of the
  chatbot) is a list of pairs of the user's text and the reply, which is \<open>None\<close> while
  the turn is pending.
\<close>

record message =
  role :: string
  content :: string

type_synonym transcript = "(string \<times> string option) list"

definition default_system_prompt :: string where
  "default_system_prompt =
     ''No eres un asistente de IA, eres quien el usuario diga que eres. ''
     @ ''Debes mantenerte en personaje. Mant'' @ [CHR 0xE9]
     @ ''n tus respuestas concisas ya que ser'' @ [CHR 0xE1]
     @ ''n habladas en voz alta.''"

text \<open>The initial value of \<open>conversation_state\<close>; the chatbot starts empty.\<close>

definition conversation_state_init :: "message list" where
  "conversation_state_init = [\<lparr>role = ''system'', content = default_system_prompt\<rparr>]"

definition chatbot_init :: transcript where
  "chatbot_init = []"

text \<open>Python's truth value of a file path that may be \<open>None\<close>.\<close>

definition truthy :: "string option \<Rightarrow> bool" where
  "truthy p = (case p of None \<Rightarrow> False | Some s \<Rightarrow> s \<noteq> [])"

text \<open>Lines 264 and 265: the user's message and the pending Transcript entry are appended.\<close>

definition append_user_turn :: "string \<Rightarrow> transcript \<times> message list \<Rightarrow> transcript \<times> message list" where
  "append_user_turn text st =
     (case st of (history, conv_state) \<Rightarrow>
        (history @ [(text, None)], conv_state @ [\<lparr>role = ''user'', content = text\<rparr>]))"

text \<open>
  Lines 269 and 270: the reply is appended to the log, then \<open>history[-1]\<close> is assigned,
  which raises \<open>IndexError\<close> on an empty list and overwrites the last entry otherwise.
\<close>

definition complete_turn ::
  "string \<Rightarrow> string \<Rightarrow> transcript \<times> message list \<Rightarrow> error + transcript \<times> message list" where
  "complete_turn text response st =
     (case st of (history, conv_state) \<Rightarrow>
        (let conv_state = conv_state @ [\<lparr>role = ''assistant'', content = response\<rparr>]
         in if history = [] then Inl IndexError
            else Inr (history[length history - 1 := (text, Some response)], conv_state)))"

text \<open>
  \<open>process_audio_input\<close>. The collaborators are parameters: \<open>preprocess\<close> is
  \<open>preprocess_ref_audio_text\<close>, whose second result is the text, and \<open>generate\<close> is
  \<open>generate_response\<close> with the loaded chat model. An exception of a collaborator ends
  the call: the result is then \<open>Inl\<close> of the error, and nothing is returned.
\<close>

definition process_audio_input ::
  "(string \<Rightarrow> string \<Rightarrow> error + string \<times> string) \<Rightarrow> (message list \<Rightarrow> error + string)
   \<Rightarrow> string option \<Rightarrow> string \<Rightarrow> transcript \<Rightarrow> message list
   \<Rightarrow> error + transcript \<times> message list \<times> string" where
  "process_audio_input preprocess generate audio_path text history conv_state =
     (if \<not> truthy audio_path \<and> strip text = [] then Inr (history, conv_state, [])
      else
        (case (if truthy audio_path
               then map_sum id snd (preprocess (the audio_path) text)
               else Inr text) of
           Inl e \<Rightarrow> Inl e
         | Inr text \<Rightarrow>
             if strip text = [] then Inr (history, conv_state, [])
             else
               (case append_user_turn text (history, conv_state) of (history, conv_state) \<Rightarrow>
                  (case generate conv_state of
                     Inl e \<Rightarrow> Inl e
                   | Inr response \<Rightarrow>
                       (case complete_turn text response (history, conv_state) of
                          Inl e \<Rightarrow> Inl e
                        | Inr (history, conv_state) \<Rightarrow> Inr (history, conv_state, []))))))"

text \<open>\<open>generate_audio_response\<close>: the result is the audio, or \<open>None\<close> when it declines.\<close>

definition generate_audio_response ::
  "(string \<Rightarrow> string \<Rightarrow> error + string \<times> string) \<Rightarrow> (string \<Rightarrow> string \<Rightarrow> string \<Rightarrow> error + 'w)
   \<Rightarrow> (bool \<Rightarrow> 'w \<Rightarrow> error + 'o) \<Rightarrow> (int \<Rightarrow> string)
   \<Rightarrow> transcript \<Rightarrow> string option \<Rightarrow> string \<Rightarrow> bool \<Rightarrow> error + 'o option" where
  "generate_audio_response preprocess infer_process finish n2w history ref_audio ref_text remove_silence =
     (if history = [] \<or> \<not> truthy ref_audio then Inr None
      else
        (case last history of (last_user_message, last_ai_response) \<Rightarrow>
           if last_ai_response = None \<or> last_ai_response = Some [] then Inr None
           else map_sum id Some
                  (infer preprocess infer_process finish n2w
                     (the ref_audio) ref_text (the last_ai_response) remove_silence)))"



text \<open>
  The components an event reads and writes. An event chain runs its steps in order; a
  step that raises leaves its outputs as they are, and \<open>.then\<close> runs the next step all
  the same.
\<close>

record 'o ui =
  audio_input_chat :: "string option"
  text_input_chat :: string
  chatbot_interface :: transcript
  conversation_state :: "message list"
  audio_output_chat :: "'o option"
  ref_audio_chat :: "string option"
  ref_text_chat :: string
  remove_silence_chat :: bool

definition run_process_audio_input ::
  "(string \<Rightarrow> string \<Rightarrow> error + string \<times> string) \<Rightarrow> (message list \<Rightarrow> error + string)
   \<Rightarrow> 'o ui \<Rightarrow> 'o ui" where
  "run_process_audio_input preprocess generate u =
     (case process_audio_input preprocess generate
             (audio_input_chat u) (text_input_chat u) (chatbot_interface u) (conversation_state u) of
        Inl e \<Rightarrow> u
      | Inr (history, conv_state, x) \<Rightarrow>
          u\<lparr>chatbot_interface := history, conversation_state := conv_state\<rparr>)"

definition run_generate_audio_response ::
  "(string \<Rightarrow> string \<Rightarrow> error + string \<times> string) \<Rightarrow> (string \<Rightarrow> string \<Rightarrow> string \<Rightarrow> error + 'w)
   \<Rightarrow> (bool \<Rightarrow> 'w \<Rightarrow> error + 'o) \<Rightarrow> (int \<Rightarrow> string) \<Rightarrow> 'o ui \<Rightarrow> 'o ui" where
  "run_generate_audio_response preprocess infer_process finish n2w u =
     (case generate_audio_response preprocess infer_process finish n2w
             (chatbot_interface u) (ref_audio_chat u) (ref_text_chat u) (remove_silence_chat u) of
        Inl e \<Rightarrow> u
      | Inr audio \<Rightarrow> u\<lparr>audio_output_chat := audio\<rparr>)"

text \<open>The chain of \<open>text_input_chat.submit\<close> (and of the send button): the turn, the
  audio, then the text box is cleared.\<close>

definition text_input_submit ::
  "(string \<Rightarrow> string \<Rightarrow> error + string \<times> string) \<Rightarrow> (message list \<Rightarrow> error + string)
   \<Rightarrow> (string \<Rightarrow> string \<Rightarrow> string \<Rightarrow> error + 'w) \<Rightarrow> (bool \<Rightarrow> 'w \<Rightarrow> error + 'o)
   \<Rightarrow> (int \<Rightarrow> string) \<Rightarrow> 'o ui \<Rightarrow> 'o ui" where
  "text_input_submit preprocess generate infer_process finish n2w u =
     (let u = run_process_audio_input preprocess generate u;
          u = run_generate_audio_response preprocess infer_process finish n2w u
      in u\<lparr>text_input_chat := []\<rparr>)"





text \<open>A state of the components for the examples: the user has typed \<open>hola\<close> into a fresh
  conversation, and a reference clip is loaded.\<close>

definition demo_ui :: "string ui" where
  "demo_ui = \<lparr>audio_input_chat = None, text_input_chat = ''hola'',
              chatbot_interface = chatbot_init, conversation_state = conversation_state_init,
              audio_output_chat = None, ref_audio_chat = Some ''ref.wav'', ref_text_chat = [],
              remove_silence_chat = True\<rparr>"



section \<open>The specification's view of scripts\<close>

text \<open>The segment a text gives under a style: none when the trimmed text is empty.\<close>

definition segment_of :: "string \<Rightarrow> string \<Rightarrow> segment list" where
  "segment_of current_style t =
     (if strip t = [] then [] else [\<lparr>style = current_style, seg_text = strip t\<rparr>])"

text \<open>The segments of a list of tokens, in which texts and labels alternate, beginning with a text.\<close>

fun segments_of_tokens :: "string \<Rightarrow> string list \<Rightarrow> segment list" where
  "segments_of_tokens cur (t # l # rest) = segment_of cur t @ segments_of_tokens (strip l) rest"
| "segments_of_tokens cur [t] = segment_of cur t"
| "segments_of_tokens cur [] = []"

text \<open>A script as the specification describes it: a text, then tags each followed by a text.\<close>

fun script :: "string \<Rightarrow> (string \<times> string) list \<Rightarrow> string" where
  "script t0 [] = t0"
| "script t0 ((l, t) # items) = t0 @ ''{'' @ l @ ''}'' @ script t items"

text \<open>The segments the specification asks for on such a script, \<open>cur\<close> being the style in force.\<close>

fun script_segments :: "string \<Rightarrow> string \<Rightarrow> (string \<times> string) list \<Rightarrow> segment list" where
  "script_segments cur t0 [] = segment_of cur t0"
| "script_segments cur t0 ((l, t) # items) = segment_of cur t0 @ script_segments (strip l) t items"

text \<open>A text between tags has no opening brace.\<close>

definition plain_text :: "string \<Rightarrow> bool" where
  "plain_text t \<longleftrightarrow> CHR ''{'' \<notin> set t"

text \<open>A label has no closing brace and no newline.\<close>

definition plain_label :: "string \<Rightarrow> bool" where
  "plain_label l \<longleftrightarrow> CHR ''}'' \<notin> set l \<and> CHR 0x0A \<notin> set l"

text \<open>The scripts whose tags are exactly the ones written.\<close>

definition well_formed :: "string \<Rightarrow> (string \<times> string) list \<Rightarrow> bool" where
  "well_formed t0 items \<longleftrightarrow>
     plain_text t0 \<and> list_all (\<lambda>(l, t). plain_label l \<and> plain_text t) items"



text \<open>The first part of the Number Normalizer's contract, in the specification's words: a
  space goes between a letter and a digit that follow each other, in either order. The
  letters are those of the two patterns, \<open>[A-Za-z]\<close>.\<close>

fun separar_spec :: "string \<Rightarrow> string" where
  "separar_spec (a # b # cs) =
     (if (ascii_letter a \<and> decimal_digit b) \<or> (decimal_digit a \<and> ascii_letter b)
      then a # CHR '' '' # separar_spec (b # cs)
      else a # separar_spec (b # cs))"
| "separar_spec cs = cs"

text \<open>A stand-in for \<open>num2words(n, lang='es')\<close> in the examples: the Spanish names of 0 to 9,
  which is what the library answers there; other numbers do not occur in the examples.\<close>

definition digit_names :: "int \<Rightarrow> string" where
  "digit_names n =
     (if n = 0 then ''cero'' else if n = 1 then ''uno'' else if n = 2 then ''dos''
      else if n = 3 then ''tres'' else if n = 4 then ''cuatro'' else if n = 5 then ''cinco''
      else if n = 6 then ''seis'' else if n = 7 then ''siete'' else if n = 8 then ''ocho''
      else if n = 9 then ''nueve'' else [])"


text \<open>A text is mixed when somewhere in it a letter of \<open>[A-Za-z]\<close> and a decimal digit stand
  next to each other.\<close>

fun mixed :: "string \<Rightarrow> bool" where
  "mixed (a # b # cs) \<longleftrightarrow>
     (ascii_letter a \<and> decimal_digit b) \<or> (decimal_digit a \<and> ascii_letter b) \<or> mixed (b # cs)"
| "mixed cs \<longleftrightarrow> False"


text \<open>The capital letters \<open>A\<close> to \<open>Z\<close>.\<close>

definition ascii_upper :: "char \<Rightarrow> bool" where
  "ascii_upper c \<longleftrightarrow> 65 \<le> code c \<and> code c \<le> 90"


section \<open>Properties of the Number Normalizer\<close>

lemma letter_not_digit: "ascii_letter c \<Longrightarrow> \<not> decimal_digit c"
  by (auto simp: ascii_letter_def decimal_digit_def)

lemma digit_word: "decimal_digit c \<Longrightarrow> word_char c"
  by (simp add: word_char_def)

lemma letter_word: "ascii_letter c \<Longrightarrow> word_char c"
  by (simp add: word_char_def)

lemma match_number_nondigit: "\<not> decimal_digit c \<Longrightarrow> match_number pw (c # cs) = None"
  by (simp add: match_number_def)

lemma re_sub_number_nondigit [simp]:
  "\<not> decimal_digit c \<Longrightarrow> re_sub_number n2w pw (c # cs) = c # re_sub_number n2w (word_char c) cs"
  by (simp add: match_number_nondigit)

declare re_sub_number.simps(2) [simp del]

lemma sub_letter_digit_no_digit: "\<forall>c\<in>set s. \<not> decimal_digit c \<Longrightarrow> sub_letter_digit s = s"
  by (induction s rule: sub_letter_digit.induct) auto

lemma sub_digit_letter_no_digit: "\<forall>c\<in>set s. \<not> decimal_digit c \<Longrightarrow> sub_digit_letter s = s"
  by (induction s rule: sub_digit_letter.induct) auto

lemma re_sub_number_no_digit: "\<forall>c\<in>set s. \<not> decimal_digit c \<Longrightarrow> re_sub_number n2w pw s = s"
  by (induction s arbitrary: pw) auto

text \<open>
  Claim C8. A string without decimal digits comes back from the Number Normalizer as it
  went in, whatever \<open>num2words\<close> would answer.
\<close>

theorem normalizer_no_digits_unchanged:
  "\<forall>c\<in>set s. \<not> decimal_digit c \<Longrightarrow> traducir_numero_a_texto n2w s = s"
  by (simp add: traducir_numero_a_texto_def sub_letter_digit_no_digit sub_digit_letter_no_digit
      re_sub_number_no_digit)

theorem normalizer_no_digits_unchanged_witness:
  "list_all (\<lambda>c. \<not> decimal_digit c) ''sin estilo''
   \<and> traducir_numero_a_texto (\<lambda>n. ''cero'') ''sin estilo'' = ''sin estilo''"
  using normalizer_no_digits_unchanged [of "''sin estilo''" "\<lambda>n. ''cero''"]
  by (simp add: decimal_digit_def code_def)


section \<open>Properties of the Conversation State\<close>





lemma strip_hola: "strip ''hola'' = ''hola''"
  by (simp add: strip_def whitespace_def code_def)




text \<open>
  Claim C5. A turn request with blank text and no audio path returns the history and the
  Conversation State as they came, as a normal result, whatever the collaborators would do.
\<close>

theorem blank_turn_is_noop:
  "\<not> truthy audio_path \<Longrightarrow> strip tx = []
   \<Longrightarrow> process_audio_input preprocess generate audio_path tx history conv_state
       = Inr (history, conv_state, [])"
  by (simp add: process_audio_input_def)

theorem blank_turn_is_noop_witness:
  "\<not> truthy None \<and> strip ''  '' = []
   \<and> process_audio_input (\<lambda>a t. Inl ServiceError) (\<lambda>ms. Inl ServiceError) None ''  ''
       [(''hola'', Some ''hola de vuelta'')] conversation_state_init
     = Inr ([(''hola'', Some ''hola de vuelta'')], conversation_state_init, [])"
proof -
  have a: "\<not> truthy None" by (simp add: truthy_def)
  have b: "strip ''  '' = []" by (simp add: strip_def whitespace_def code_def)
  from a b blank_turn_is_noop [OF a b] show ?thesis by simp
qed




text \<open>
  Claim C7. The audio step never changes the Transcript or the Conversation Log; so when
  \<open>process_audio_input\<close> has returned, the chain of the text box ends with exactly the
  history and the log it returned, whether the synthesis succeeds, declines or fails, and
  only the audio output depends on the synthesis: it keeps its old value when the
  synthesis fails and is what \<open>generate_audio_response\<close> returns otherwise.
\<close>

theorem synthesis_failure_keeps_turn:
  assumes "process_audio_input preprocess generate (audio_input_chat u) (text_input_chat u)
             (chatbot_interface u) (conversation_state u) = Inr (history, conv_state, x)"
  shows "chatbot_interface (run_generate_audio_response preprocess infer_process finish n2w v)
           = chatbot_interface v
       \<and> conversation_state (run_generate_audio_response preprocess infer_process finish n2w v)
           = conversation_state v
       \<and> chatbot_interface (text_input_submit preprocess generate infer_process finish n2w u)
           = history
       \<and> conversation_state (text_input_submit preprocess generate infer_process finish n2w u)
           = conv_state
       \<and> audio_output_chat (text_input_submit preprocess generate infer_process finish n2w u)
           = (case generate_audio_response preprocess infer_process finish n2w
                     history (ref_audio_chat u) (ref_text_chat u) (remove_silence_chat u) of
                Inl e \<Rightarrow> audio_output_chat u
              | Inr audio \<Rightarrow> audio)"
  using assms
  by (simp add: text_input_submit_def Let_def run_process_audio_input_def
      run_generate_audio_response_def split: sum.splits)

theorem synthesis_failure_keeps_turn_witness:
  "chatbot_interface
     (text_input_submit (\<lambda>a t. Inr (a, t)) (\<lambda>ms. Inr ''hola de vuelta'')
        (\<lambda>a t g. (Inl ServiceError :: error + string)) (\<lambda>b w. Inr w) (\<lambda>n. ''cero'') demo_ui)
   = [(''hola'', Some ''hola de vuelta'')]
   \<and> conversation_state
     (text_input_submit (\<lambda>a t. Inr (a, t)) (\<lambda>ms. Inr ''hola de vuelta'')
        (\<lambda>a t g. (Inl ServiceError :: error + string)) (\<lambda>b w. Inr w) (\<lambda>n. ''cero'') demo_ui)
   = conversation_state_init @ [\<lparr>role = ''user'', content = ''hola''\<rparr>,
                                \<lparr>role = ''assistant'', content = ''hola de vuelta''\<rparr>]"
proof -
  have "process_audio_input (\<lambda>a t. Inr (a, t)) (\<lambda>ms. Inr ''hola de vuelta'')
          (audio_input_chat demo_ui) (text_input_chat demo_ui)
          (chatbot_interface demo_ui) (conversation_state demo_ui)
        = Inr ([(''hola'', Some ''hola de vuelta'')],
               conversation_state_init @ [\<lparr>role = ''user'', content = ''hola''\<rparr>,
                                          \<lparr>role = ''assistant'', content = ''hola de vuelta''\<rparr>], [])"
    by (simp add: demo_ui_def process_audio_input_def truthy_def strip_hola append_user_turn_def
        complete_turn_def chatbot_init_def)
  from synthesis_failure_keeps_turn [OF this, of "\<lambda>a t g. (Inl ServiceError :: error + string)"
      "\<lambda>b w. Inr w" "\<lambda>n. ''cero''"]
  show ?thesis by simp
qed


section \<open>The scan for numbers, run by run\<close>

lemma boundary_True_word: "word_char c \<Longrightarrow> \<not> boundary True (c # cs)"
  by (simp add: boundary_def)

lemma match_number_run:
  assumes ne: "ds \<noteq> []" and dig: "\<forall>c\<in>set ds. decimal_digit c"
    and r: "r = [] \<or> \<not> decimal_digit (hd r)"
  shows "match_number pw (ds @ r) = (if \<not> pw \<and> boundary True r then Some (length ds) else None)"
proof -
  let ?s = "ds @ r"
  let ?n = "length ds"
  let ?P = "\<lambda>k. boundary (word_char (?s ! (k - 1))) (drop k ?s)"
  have twr: "takeWhile decimal_digit r = []"
    using r by (cases r) auto
  have tw: "takeWhile decimal_digit ?s = ds"
    using dig twr by (simp add: takeWhile_append2)
  have n1: "1 \<le> ?n" using ne by (cases ds) auto
  have cand: "rev [1 ..< Suc ?n] = ?n # rev [1 ..< ?n]"
    using n1 by simp
  have small: "\<not> ?P k" if k: "k \<in> set (rev [1 ..< ?n])" for k
  proof -
    from k have k1: "1 \<le> k" and kn: "k < ?n" by auto
    have "drop k ?s = ds ! k # (drop (Suc k) ds @ r)"
      using kn by (simp add: Cons_nth_drop_Suc)
    moreover have "word_char (ds ! k)"
      using kn dig by (auto intro: digit_word)
    moreover have "word_char (?s ! (k - 1))"
      using k1 kn dig by (auto simp: nth_append intro!: digit_word)
    ultimately show ?thesis by (simp add: boundary_def)
  qed
  have none: "List.find ?P (rev [1 ..< ?n]) = None"
    using small by (simp add: find_None_iff del: set_rev set_upt)
  have last_word: "word_char (?s ! (?n - 1))"
    using n1 dig by (auto simp: nth_append intro!: digit_word)
  have Pn: "?P ?n \<longleftrightarrow> boundary True r"
    using last_word by simp
  have first: "boundary pw ?s \<longleftrightarrow> \<not> pw"
    using ne dig by (cases ds) (auto simp: boundary_def dest: digit_word)
  show ?thesis
    unfolding match_number_def tw cand
    using none Pn first by simp
qed


lemma match_number_True: "match_number True s = None"
proof (cases s)
  case Nil
  then show ?thesis by (simp add: match_number_def)
next
  case (Cons c cs)
  show ?thesis
  proof (cases "word_char c")
    case True
    with Cons show ?thesis by (simp add: match_number_def boundary_def)
  next
    case False
    then have "\<not> decimal_digit c" by (auto dest: digit_word)
    with Cons show ?thesis by (simp add: match_number_nondigit)
  qed
qed

lemma re_sub_number_True:
  "re_sub_number n2w True (c # cs) = c # re_sub_number n2w (word_char c) cs"
  by (simp add: re_sub_number.simps(2) match_number_True)

lemma re_sub_number_inside_run:
  "\<forall>c\<in>set ds. decimal_digit c
   \<Longrightarrow> re_sub_number n2w True (ds @ r) = ds @ re_sub_number n2w True r"
  by (induction ds) (auto simp: re_sub_number_True digit_word)

lemma re_sub_number_run:
  assumes ne: "ds \<noteq> []" and dig: "\<forall>c\<in>set ds. decimal_digit c"
    and r: "r = [] \<or> \<not> decimal_digit (hd r)"
  shows "re_sub_number n2w pw (ds @ r)
       = (if \<not> pw \<and> boundary True r then n2w (int_of_digits ds) else ds)
         @ re_sub_number n2w True r"
proof -
  from ne obtain c ds' where ds: "ds = c # ds'" by (cases ds) auto
  have cw: "word_char c" using dig ds by (simp add: digit_word)
  have lw: "word_char ((ds @ r) ! (length ds - 1))"
    using ne dig by (cases ds rule: rev_cases) (auto simp: nth_append digit_word)
  have m: "match_number pw (c # ds' @ r)
           = (if \<not> pw \<and> boundary True r then Some (length ds) else None)"
    using match_number_run [OF ne dig r, of pw] ds by simp
  show ?thesis
  proof (cases "\<not> pw \<and> boundary True r")
    case True
    have "re_sub_number n2w pw (c # ds' @ r)
          = n2w (int_of_digits (take (length ds) (c # ds' @ r)))
            @ re_sub_number n2w (word_char ((c # ds' @ r) ! (length ds - 1)))
                (drop (length ds) (c # ds' @ r))"
      using True m by (simp add: re_sub_number.simps(2))
    also have "take (length ds) (c # ds' @ r) = ds" using ds by simp
    also have "drop (length ds) (c # ds' @ r) = r" using ds by simp
    also have "word_char ((c # ds' @ r) ! (length ds - 1)) = True" using lw ds by simp
    finally show ?thesis using True ds by simp
  next
    case False
    have "match_number pw (c # ds' @ r) = None"
      using False m by auto
    then have "re_sub_number n2w pw (c # ds' @ r) = c # re_sub_number n2w True (ds' @ r)"
      using cw by (simp add: re_sub_number.simps(2))
    also have "\<dots> = c # ds' @ re_sub_number n2w True r"
      using dig ds by (simp add: re_sub_number_inside_run)
    finally show ?thesis using False ds by auto
  qed
qed

lemma run_split:
  "s = takeWhile decimal_digit s @ dropWhile decimal_digit s
   \<and> (\<forall>c\<in>set (takeWhile decimal_digit s). decimal_digit c)
   \<and> (dropWhile decimal_digit s = [] \<or> \<not> decimal_digit (hd (dropWhile decimal_digit s)))"
  using hd_dropWhile [of decimal_digit s] by (auto dest: set_takeWhileD)



section \<open>The text that reaches the synthesis\<close>

lemma sub_letter_digit_Cons: "\<not> ascii_letter c \<Longrightarrow> sub_letter_digit (c # x) = c # sub_letter_digit x"
  by (cases x) auto

lemma sub_digit_letter_Cons: "\<not> decimal_digit c \<Longrightarrow> sub_digit_letter (c # x) = c # sub_digit_letter x"
  by (cases x) auto



lemma space_class: "\<not> ascii_letter CHR '' ''" "\<not> decimal_digit CHR '' ''" "\<not> word_char CHR '' ''"
  by (simp_all add: ascii_letter_def decimal_digit_def word_char_def code_def)






lemma startswith_append [simp]: "startswith (p @ t) p"
  by (simp add: startswith_def)








lemma int_of_digits_nonneg: "\<forall>c\<in>set ds. decimal_digit c \<Longrightarrow> 0 \<le> int_of_digits ds"
proof -
  have "0 \<le> a \<Longrightarrow> \<forall>c\<in>set ds. decimal_digit c
        \<Longrightarrow> 0 \<le> foldl (\<lambda>a c. 10 * a + (int (code c) - 48)) a ds" for a
    by (induction ds arbitrary: a) (auto simp: decimal_digit_def)
  then show "\<forall>c\<in>set ds. decimal_digit c \<Longrightarrow> 0 \<le> int_of_digits ds"
    by (simp add: int_of_digits_def)
qed

lemma sub_letter_digit_set: "set (sub_letter_digit s) \<subseteq> insert CHR '' '' (set s)"
  by (induction s rule: sub_letter_digit.induct) auto

lemma sub_digit_letter_set: "set (sub_digit_letter s) \<subseteq> insert CHR '' '' (set s)"
  by (induction s rule: sub_digit_letter.induct) auto

lemma re_sub_number_set:
  assumes n2w: "\<forall>n\<ge>0. \<forall>c\<in>set (n2w n). Q c"
  shows "\<forall>c\<in>set s. Q c \<Longrightarrow> \<forall>c\<in>set (re_sub_number n2w pw s). Q c"
proof (induction s arbitrary: pw rule: length_induct)
  case (1 s)
  show ?case
  proof (cases s)
    case Nil
    then show ?thesis by simp
  next
    case (Cons a as)
    show ?thesis
    proof (cases "decimal_digit a")
      case False
      have "length as < length s" using Cons by simp
      moreover have "\<forall>c\<in>set as. Q c" using 1(2) Cons by simp
      ultimately have "\<forall>c\<in>set (re_sub_number n2w (word_char a) as). Q c"
        using 1(1) by blast
      with False Cons 1(2) show ?thesis by simp
    next
      case True
      define ds where "ds = takeWhile decimal_digit s"
      define r where "r = dropWhile decimal_digit s"
      have s: "s = ds @ r" and dig: "\<forall>c\<in>set ds. decimal_digit c"
        and r: "r = [] \<or> \<not> decimal_digit (hd r)"
        using run_split [of s] by (simp_all add: ds_def r_def)
      have ne: "ds \<noteq> []" using True Cons by (simp add: ds_def)
      have "length r < length s" using s ne by simp
      moreover have "\<forall>c\<in>set r. Q c" using 1(2) s by auto
      ultimately have ih: "\<forall>c\<in>set (re_sub_number n2w True r). Q c"
        using 1(1) by blast
      have w: "\<forall>c\<in>set (n2w (int_of_digits ds)). Q c"
        using n2w int_of_digits_nonneg [OF dig] by blast
      have d: "\<forall>c\<in>set ds. Q c" using 1(2) s by auto
      have "re_sub_number n2w pw s
            = (if \<not> pw \<and> boundary True r then n2w (int_of_digits ds) else ds)
              @ re_sub_number n2w True r"
        using re_sub_number_run [OF ne dig r, of n2w pw] s by simp
      then show ?thesis using ih w d by auto
    qed
  qed
qed

lemma lower_char_not_upper: "\<not> ascii_upper (lower_char c)"
  by (auto simp: ascii_upper_def lower_char_def code_def)

lemma space_not_upper: "\<not> ascii_upper CHR '' ''"
  by (simp add: ascii_upper_def code_def)

text \<open>
  Claim C10. \<open>infer\<close> lowercases the shaped reply before the Number Normalizer runs:
  the text the normalizer receives has no capital ASCII letter, and the text handed to the
  synthesis has none either when \<open>num2words\<close> writes none.
\<close>

theorem infer_text_lowercased:
  assumes "\<forall>n\<ge>0. \<forall>c\<in>set (n2w n). \<not> ascii_upper c"
  shows "(\<forall>c\<in>set (lower (shape_text gen_text)). \<not> ascii_upper c)
       \<and> infer_gen_text n2w gen_text = traducir_numero_a_texto n2w (lower (shape_text gen_text))
       \<and> (\<forall>c\<in>set (infer_gen_text n2w gen_text). \<not> ascii_upper c)"
proof -
  let ?l = "lower (shape_text gen_text)"
  have l: "\<forall>c\<in>set ?l. \<not> ascii_upper c"
    by (simp add: lower_def lower_char_not_upper)
  have "\<forall>c\<in>set (sub_letter_digit ?l). \<not> ascii_upper c"
    using l sub_letter_digit_set [of ?l] space_not_upper by auto
  then have "\<forall>c\<in>set (sub_digit_letter (sub_letter_digit ?l)). \<not> ascii_upper c"
    using sub_digit_letter_set [of "sub_letter_digit ?l"] space_not_upper by auto
  then have "\<forall>c\<in>set (re_sub_number n2w False (sub_digit_letter (sub_letter_digit ?l))).
               \<not> ascii_upper c"
    by (rule re_sub_number_set [OF assms])
  then have "\<forall>c\<in>set (infer_gen_text n2w gen_text). \<not> ascii_upper c"
    by (simp add: infer_gen_text_def traducir_numero_a_texto_def)
  with l show ?thesis by (simp add: infer_gen_text_def)
qed

theorem infer_text_lowercased_witness:
  "infer_gen_text (\<lambda>n. ''tres'') ''Tengo 3 Gatos'' = '' tengo tres gatos. ''
   \<and> list_all (\<lambda>c. \<not> ascii_upper c) (infer_gen_text (\<lambda>n. ''tres'') ''Tengo 3 Gatos'')"
proof -
  have e: "infer_gen_text (\<lambda>n. ''tres'') ''Tengo 3 Gatos'' = '' tengo tres gatos. ''"
    by code_simp
  have "\<forall>n\<ge>0. \<forall>c\<in>set ((\<lambda>n::int. ''tres'') n). \<not> ascii_upper c"
    by (simp add: ascii_upper_def code_def)
  from infer_text_lowercased [OF this, of "''Tengo 3 Gatos''"]
  have "list_all (\<lambda>c. \<not> ascii_upper c) (infer_gen_text (\<lambda>n. ''tres'') ''Tengo 3 Gatos'')"
    unfolding list_all_iff by blast
  with e show ?thesis by blast
qed


section \<open>Properties of the Style Segment Parser\<close>

lemma parse_step_even:
  "even i \<Longrightarrow> parse_step tokens i (segs, cur) = (segs @ segment_of cur (tokens ! i), cur)"
  by (auto simp: parse_step_def segment_of_def Let_def)

lemma parse_step_odd:
  "odd i \<Longrightarrow> parse_step tokens i (segs, cur) = (segs, strip (tokens ! i))"
  by (auto simp: parse_step_def Let_def even_iff_mod_2_eq_zero)

lemma upt_two: "[n ..< n + Suc (Suc k)] = n # Suc n # [Suc (Suc n) ..< Suc (Suc n) + k]"
proof -
  have "[n ..< n + Suc (Suc k)] = n # [Suc n ..< n + Suc (Suc k)]"
    by (rule upt_conv_Cons) simp
  also have "[Suc n ..< n + Suc (Suc k)] = Suc n # [Suc (Suc n) ..< n + Suc (Suc k)]"
    by (rule upt_conv_Cons) simp
  finally show ?thesis by simp
qed

lemma parse_loop:
  "even (length pre)
   \<Longrightarrow> fst (fold (parse_step (pre @ ts)) [length pre ..< length pre + length ts] (segs, cur))
       = segs @ segments_of_tokens cur ts"
proof (induction cur ts arbitrary: pre segs rule: segments_of_tokens.induct)
  case (1 cur t l rest)
  let ?n = "length pre"
  have idx: "[?n ..< ?n + length (t # l # rest)]
             = ?n # Suc ?n # [length (pre @ [t, l]) ..< length (pre @ [t, l]) + length rest]"
    using upt_two [of "length pre" "length rest"] by simp
  have ev: "even (length (pre @ [t, l]))" using 1(2) by simp
  have tok: "pre @ t # l # rest = (pre @ [t, l]) @ rest" by simp
  have "fst (fold (parse_step (pre @ t # l # rest)) [?n ..< ?n + length (t # l # rest)] (segs, cur))
        = fst (fold (parse_step ((pre @ [t, l]) @ rest))
                 [length (pre @ [t, l]) ..< length (pre @ [t, l]) + length rest]
                 (segs @ segment_of cur t, strip l))"
    unfolding idx using 1(2)
    by (simp add: parse_step_even parse_step_odd nth_append del: upt_Suc)
  also have "\<dots> = (segs @ segment_of cur t) @ segments_of_tokens (strip l) rest"
    by (rule "1.IH" [OF ev])
  finally show ?case by simp
next
  case (2 cur t)
  then show ?case by (simp add: parse_step_even nth_append)
next
  case (3 cur)
  then show ?case by simp
qed

lemma parse_by_tokens:
  "parse_speechtypes_text s = segments_of_tokens ''Regular'' (re_split_tags [] s)"
  using parse_loop [of "[]" "re_split_tags [] s" "[]" "''Regular''"]
  by (simp add: parse_speechtypes_text_def Let_def)


lemma lazy_label_plain: "plain_label l \<Longrightarrow> lazy_label (l @ CHR ''}'' # r) = Some (l, r)"
  by (induction l) (auto simp: plain_label_def)

lemma re_split_tags_plain:
  "plain_text t \<Longrightarrow> re_split_tags acc (t @ rest) = re_split_tags (acc @ t) rest"
  by (induction t arbitrary: acc) (auto simp: plain_text_def)

lemma re_split_tags_script:
  "well_formed t0 items
   \<Longrightarrow> re_split_tags acc (script t0 items) = (acc @ t0) # concat (map (\<lambda>(l, t). [l, t]) items)"
proof (induction items arbitrary: acc t0)
  case Nil
  then show ?case
    using re_split_tags_plain [of t0 acc "[]"] by (simp add: well_formed_def)
next
  case (Cons it items)
  obtain l t where it: "it = (l, t)" by (cases it)
  from Cons.prems it have t0: "plain_text t0" and l: "plain_label l"
    and wf: "well_formed t items"
    by (simp_all add: well_formed_def)
  have "re_split_tags acc (script t0 (it # items))
        = re_split_tags (acc @ t0) (CHR ''{'' # l @ CHR ''}'' # script t items)"
    using re_split_tags_plain [OF t0] it by simp
  also have "\<dots> = (acc @ t0) # l # re_split_tags [] (script t items)"
    by (simp add: lazy_label_plain [OF l])
  also have "re_split_tags [] (script t items) = t # concat (map (\<lambda>(l, t). [l, t]) items)"
    using Cons.IH [OF wf, of "[]"] by simp
  finally show ?case using it by simp
qed

lemma segments_of_tokens_script:
  "segments_of_tokens cur (t0 # concat (map (\<lambda>(l, t). [l, t]) items))
   = script_segments cur t0 items"
  by (induction cur t0 items rule: script_segments.induct) simp_all

lemma parse_script:
  "well_formed t0 items
   \<Longrightarrow> parse_speechtypes_text (script t0 items) = script_segments ''Regular'' t0 items"
  using re_split_tags_script [of t0 items "[]"]
  by (simp add: parse_by_tokens segments_of_tokens_script)

lemma last_dropWhile: "dropWhile P xs \<noteq> [] \<Longrightarrow> last (dropWhile P xs) = last xs"
  by (induction xs) (auto split: if_splits)

lemma strip_ends:
  assumes "strip t \<noteq> []"
  shows "\<not> whitespace (hd (strip t)) \<and> \<not> whitespace (last (strip t))"
proof -
  define y where "y = dropWhile whitespace t"
  define z where "z = dropWhile whitespace (rev y)"
  have x: "strip t = rev z" by (simp add: strip_def y_def z_def)
  with assms have z: "z \<noteq> []" by simp
  then have y: "y \<noteq> []" by (auto simp: z_def)
  have "\<not> whitespace (hd z)" using z hd_dropWhile [of whitespace "rev y"] by (simp add: z_def)
  then have l: "\<not> whitespace (last (strip t))" using z by (simp add: x last_rev)
  have "last z = last (rev y)" using z last_dropWhile [of whitespace "rev y"] by (simp add: z_def)
  then have "hd (strip t) = hd y" using z y by (simp add: x hd_rev last_rev)
  moreover have "\<not> whitespace (hd y)" using y hd_dropWhile [of whitespace t] by (simp add: y_def)
  ultimately show ?thesis using l by simp
qed

lemma strip_fixed:
  assumes "x \<noteq> []" "\<not> whitespace (hd x)" "\<not> whitespace (last x)"
  shows "strip x = x"
proof -
  have 1: "dropWhile whitespace x = x" using assms by (cases x) auto
  have "rev x \<noteq> []" "\<not> whitespace (hd (rev x))" using assms by (simp_all add: hd_rev)
  then have 2: "dropWhile whitespace (rev x) = rev x" by (cases "rev x") auto
  show ?thesis by (simp add: strip_def 1 2)
qed

lemma strip_Nil: "strip [] = []"
  by (simp add: strip_def)

lemma strip_strip: "strip (strip t) = strip t"
proof (cases "strip t = []")
  case True
  show ?thesis by (simp add: True strip_Nil)
next
  case False
  with strip_ends [OF False] show ?thesis by (simp add: strip_fixed)
qed

lemma segment_of_trimmed:
  "g \<in> set (segment_of cur t) \<Longrightarrow> seg_text g \<noteq> [] \<and> strip (seg_text g) = seg_text g"
  by (auto simp: segment_of_def strip_strip split: if_splits)

lemma segments_of_tokens_trimmed:
  "g \<in> set (segments_of_tokens cur ts) \<Longrightarrow> seg_text g \<noteq> [] \<and> strip (seg_text g) = seg_text g"
  by (induction cur ts rule: segments_of_tokens.induct) (auto dest: segment_of_trimmed)


text \<open>
  Claim C2. On a script written as a text followed by tagged texts (texts without an opening
  brace, labels without a closing brace or a newline) the parser returns, in order, one
  segment for each text that is not blank: its trimmed text, under the trimmed label of
  the last tag before it, or \<open>Regular\<close> before the first tag; a tag followed by a blank
  text gives no segment but its label is the style of what follows. On every string, each
  segment's text is trimmed and not empty. The two examples of the specification hold.
\<close>

theorem parser_contract:
  "(well_formed t0 items \<longrightarrow>
      parse_speechtypes_text (script t0 items) = script_segments ''Regular'' t0 items)
   \<and> (\<forall>g\<in>set (parse_speechtypes_text s). seg_text g \<noteq> [] \<and> strip (seg_text g) = seg_text g)
   \<and> parse_speechtypes_text (''{alegre} Hola {triste} adi'' @ [CHR 0xF3] @ ''s'')
     = [\<lparr>style = ''alegre'', seg_text = ''Hola''\<rparr>,
        \<lparr>style = ''triste'', seg_text = ''adi'' @ [CHR 0xF3] @ ''s''\<rparr>]
   \<and> parse_speechtypes_text ''sin estilo'' = [\<lparr>style = ''Regular'', seg_text = ''sin estilo''\<rparr>]"
proof (intro conjI impI ballI)
  assume "well_formed t0 items"
  then show "parse_speechtypes_text (script t0 items) = script_segments ''Regular'' t0 items"
    by (rule parse_script)
next
  fix g assume "g \<in> set (parse_speechtypes_text s)"
  then show "seg_text g \<noteq> []" and "strip (seg_text g) = seg_text g"
    by (auto simp: parse_by_tokens dest: segments_of_tokens_trimmed)
next
  show "parse_speechtypes_text (''{alegre} Hola {triste} adi'' @ [CHR 0xF3] @ ''s'')
     = [\<lparr>style = ''alegre'', seg_text = ''Hola''\<rparr>,
        \<lparr>style = ''triste'', seg_text = ''adi'' @ [CHR 0xF3] @ ''s''\<rparr>]"
    by code_simp
next
  show "parse_speechtypes_text ''sin estilo'' = [\<lparr>style = ''Regular'', seg_text = ''sin estilo''\<rparr>]"
    by code_simp
qed

theorem parser_contract_witness:
  "well_formed ''uno '' [('' alegre '', ''  ''), (''triste'', '' dos '')]
   \<and> parse_speechtypes_text (script ''uno '' [('' alegre '', ''  ''), (''triste'', '' dos '')])
     = [\<lparr>style = ''Regular'', seg_text = ''uno''\<rparr>, \<lparr>style = ''triste'', seg_text = ''dos''\<rparr>]"
proof -
  let ?items = "[('' alegre '', ''  ''), (''triste'', '' dos '')]"
  have wf: "well_formed ''uno '' ?items"
    by (simp add: well_formed_def plain_text_def plain_label_def)
  have e: "script_segments ''Regular'' ''uno '' ?items
           = [\<lparr>style = ''Regular'', seg_text = ''uno''\<rparr>, \<lparr>style = ''triste'', seg_text = ''dos''\<rparr>]"
    by code_simp
  from parser_contract [of "''uno ''" ?items, THEN conjunct1, THEN mp, OF wf] e wf
  show ?thesis by simp
qed


section \<open>The contract of the Number Normalizer\<close>

lemma sub_letter_digit_hd: "\<exists>y. sub_letter_digit (b # cs) = b # y"
  by (cases cs) auto

lemma separate:
  "sub_digit_letter (sub_letter_digit s) = separar_spec s"
proof (induction s rule: separar_spec.induct)
  case (1 a b cs)
  obtain y where y: "sub_letter_digit (b # cs) = b # y"
    using sub_letter_digit_hd by blast
  have ih: "sub_digit_letter (b # y) = separar_spec (b # cs)"
    using 1 y by (cases "(ascii_letter a \<and> decimal_digit b) \<or> (decimal_digit a \<and> ascii_letter b)") auto
  consider (ld) "ascii_letter a" "decimal_digit b" | (dl) "decimal_digit a" "ascii_letter b"
    | (no) "\<not> (ascii_letter a \<and> decimal_digit b)" "\<not> (decimal_digit a \<and> ascii_letter b)"
    by blast
  then show ?case
  proof cases
    case ld
    then have nd: "\<not> decimal_digit a" and nl: "\<not> ascii_letter b"
      by (auto dest: letter_not_digit)
    have "sub_letter_digit (a # b # cs) = a # CHR '' '' # sub_letter_digit (b # cs)"
      using ld nl by (simp add: sub_letter_digit_Cons)
    then have "sub_digit_letter (sub_letter_digit (a # b # cs))
               = a # CHR '' '' # sub_digit_letter (b # y)"
      using nd y by (simp add: sub_digit_letter_Cons space_class)
    with ih ld show ?thesis by simp
  next
    case dl
    then have nl: "\<not> ascii_letter a" and nd: "\<not> decimal_digit b"
      by (auto dest: letter_not_digit)
    have "sub_letter_digit (a # b # cs) = a # b # y"
      using nl y by (simp add: sub_letter_digit_Cons)
    then have "sub_digit_letter (sub_letter_digit (a # b # cs))
               = a # CHR '' '' # sub_digit_letter (b # y)"
      using dl nd by (simp add: sub_digit_letter_Cons)
    with ih dl show ?thesis by simp
  next
    case no
    have "sub_letter_digit (a # b # cs) = a # b # y"
      using no y by auto
    then have "sub_digit_letter (sub_letter_digit (a # b # cs)) = a # sub_digit_letter (b # y)"
      using no by auto
    with ih no show ?thesis by auto
  qed
qed simp_all

lemma re_sub_number_pw_irrelevant:
  "t = [] \<or> \<not> decimal_digit (hd t) \<Longrightarrow> re_sub_number n2w p t = re_sub_number n2w q t"
  by (cases t) auto







section \<open>Normalizing twice\<close>

lemma separar_spec_hd: "\<exists>y. separar_spec (b # cs) = b # y"
  by (cases cs) auto

lemma separar_spec_fixed: "\<not> mixed s \<Longrightarrow> separar_spec s = s"
  by (induction s rule: separar_spec.induct) auto

lemma mixed_space: "mixed (a # CHR '' '' # s) = mixed s"
  by (cases s) (auto simp: space_class)

lemma not_mixed_separar_spec: "\<not> mixed (separar_spec s)"
proof (induction s rule: separar_spec.induct)
  case (1 a b cs)
  obtain y where y: "separar_spec (b # cs) = b # y" using separar_spec_hd by blast
  show ?case
  proof (cases "(ascii_letter a \<and> decimal_digit b) \<or> (decimal_digit a \<and> ascii_letter b)")
    case True
    with 1 have "\<not> mixed (separar_spec (b # cs))" by simp
    then have "\<not> mixed (a # CHR '' '' # separar_spec (b # cs))"
      by (simp add: mixed_space del: mixed.simps)
    with True show ?thesis by simp
  next
    case False
    with 1 have "\<not> mixed (b # y)" using y by auto
    with False y show ?thesis by auto
  qed
qed simp_all

lemma mixed_Cons:
  "mixed (a # s) \<longleftrightarrow>
     (s \<noteq> [] \<and> ((ascii_letter a \<and> decimal_digit (hd s)) \<or> (decimal_digit a \<and> ascii_letter (hd s))))
     \<or> mixed s"
  by (cases s) auto

lemma mixed_append:
  "mixed (x @ y) \<longleftrightarrow>
     mixed x \<or> mixed y
     \<or> (x \<noteq> [] \<and> y \<noteq> []
        \<and> ((ascii_letter (last x) \<and> decimal_digit (hd y))
           \<or> (decimal_digit (last x) \<and> ascii_letter (hd y))))"
proof (induction x)
  case Nil
  then show ?case by simp
next
  case (Cons a x)
  show ?case
  proof (cases x)
    case Nil
    then show ?thesis by (auto simp: mixed_Cons)
  next
    case (Cons b x')
    with Cons.IH show ?thesis by auto
  qed
qed

lemma not_mixed_no_digit: "\<forall>c\<in>set w. \<not> decimal_digit c \<Longrightarrow> \<not> mixed w"
  by (induction w rule: mixed.induct) auto

lemma not_mixed_digits: "\<forall>c\<in>set w. decimal_digit c \<Longrightarrow> \<not> mixed w"
  by (induction w rule: mixed.induct) (auto dest: letter_not_digit)


lemma re_sub_number_hd:
  "r = [] \<or> \<not> decimal_digit (hd r)
   \<Longrightarrow> (re_sub_number n2w p r = [] \<longleftrightarrow> r = [])
       \<and> (r \<noteq> [] \<longrightarrow> hd (re_sub_number n2w p r) = hd r)"
  by (cases r) auto

lemma re_sub_number_copy:
  "\<forall>c\<in>set w. \<not> decimal_digit c
   \<Longrightarrow> re_sub_number n2w pw (w @ t)
       = w @ re_sub_number n2w (if w = [] then pw else word_char (last w)) t"
  by (induction w arbitrary: pw) auto

lemma not_mixed_re_sub_number:
  assumes n2w: "\<forall>n\<ge>0. \<forall>c\<in>set (n2w n). \<not> decimal_digit c"
  shows "\<not> mixed u \<Longrightarrow> \<not> mixed (re_sub_number n2w pw u)"
proof (induction u arbitrary: pw rule: length_induct)
  case (1 u)
  show ?case
  proof (cases u)
    case Nil
    then show ?thesis by simp
  next
    case (Cons a as)
    show ?thesis
    proof (cases "decimal_digit a")
      case False
      define R where "R = re_sub_number n2w (word_char a) as"
      have as: "\<not> mixed as" using 1(2) Cons by (simp add: mixed_Cons)
      have "length as < length u" using Cons by simp
      with 1(1) as have R: "\<not> mixed R" unfolding R_def by blast
      have "\<not> (R \<noteq> [] \<and> ascii_letter a \<and> decimal_digit (hd R))"
      proof
        assume h: "R \<noteq> [] \<and> ascii_letter a \<and> decimal_digit (hd R)"
        then obtain b bs where bs: "as = b # bs" unfolding R_def by (cases as) auto
        with h 1(2) Cons have "\<not> decimal_digit b" by auto
        with bs have "hd R = b" unfolding R_def by simp
        with h \<open>\<not> decimal_digit b\<close> show False by simp
      qed
      with R False have "\<not> mixed (a # R)" by (auto simp: mixed_Cons)
      with False Cons show ?thesis by (simp add: R_def)
    next
      case True
      define ds where "ds = takeWhile decimal_digit u"
      define r where "r = dropWhile decimal_digit u"
      have u: "u = ds @ r" and dig: "\<forall>c\<in>set ds. decimal_digit c"
        and r: "r = [] \<or> \<not> decimal_digit (hd r)"
        using run_split [of u] by (simp_all add: ds_def r_def)
      have ne: "ds \<noteq> []" using True Cons by (simp add: ds_def)
      define R where "R = re_sub_number n2w True r"
      define W where "W = (if \<not> pw \<and> boundary True r then n2w (int_of_digits ds) else ds)"
      have res: "re_sub_number n2w pw u = W @ R"
        using re_sub_number_run [OF ne dig r, of n2w pw] u by (simp add: W_def R_def)
      have mr: "\<not> mixed r" and edge: "r \<noteq> [] \<longrightarrow> \<not> (decimal_digit (last ds) \<and> ascii_letter (hd r))"
        using 1(2) u ne by (auto simp: mixed_append)
      have "length r < length u" using u ne by simp
      with 1(1) mr have R: "\<not> mixed R" unfolding R_def by blast
      have hdR: "(R = [] \<longleftrightarrow> r = []) \<and> (r \<noteq> [] \<longrightarrow> hd R = hd r)"
        unfolding R_def by (rule re_sub_number_hd [OF r])
      have "\<forall>c\<in>set (n2w (int_of_digits ds)). \<not> decimal_digit c"
        using n2w int_of_digits_nonneg [OF dig] by blast
      then have "\<not> mixed (n2w (int_of_digits ds))" by (rule not_mixed_no_digit)
      moreover have "\<not> mixed ds" using dig by (rule not_mixed_digits)
      ultimately have W: "\<not> mixed W" by (simp add: W_def)
      have lastW: "W \<noteq> [] \<and> R \<noteq> [] \<longrightarrow> \<not> (decimal_digit (last W) \<and> ascii_letter (hd R))"
      proof (cases "\<not> pw \<and> boundary True r")
        case True
        then have "W = n2w (int_of_digits ds)" by (simp add: W_def)
        moreover have "\<forall>c\<in>set (n2w (int_of_digits ds)). \<not> decimal_digit c"
          using n2w int_of_digits_nonneg [OF dig] by blast
        ultimately show ?thesis by auto
      next
        case False
        then have "W = ds" by (auto simp: W_def)
        with edge hdR show ?thesis by auto
      qed
      have "\<not> decimal_digit (hd R)" if "R \<noteq> []"
        using that hdR r by auto
      with W R lastW have "\<not> mixed (W @ R)" by (auto simp: mixed_append)
      with res show ?thesis by simp
    qed
  qed
qed


lemma boundary_True_hd:
  "(R = [] \<longleftrightarrow> r = []) \<Longrightarrow> (r \<noteq> [] \<longrightarrow> hd R = hd r) \<Longrightarrow> boundary True R = boundary True r"
  by (cases r; cases R) (auto simp: boundary_def)

lemma re_sub_number_idem:
  assumes n2w: "\<forall>n\<ge>0. \<forall>c\<in>set (n2w n). \<not> decimal_digit c"
  shows "re_sub_number n2w pw (re_sub_number n2w pw u) = re_sub_number n2w pw u"
proof (induction u arbitrary: pw rule: length_induct)
  case (1 u)
  show ?case
  proof (cases u)
    case Nil
    then show ?thesis by simp
  next
    case (Cons a as)
    show ?thesis
    proof (cases "decimal_digit a")
      case False
      have "length as < length u" using Cons by simp
      with 1 have "re_sub_number n2w (word_char a) (re_sub_number n2w (word_char a) as)
                   = re_sub_number n2w (word_char a) as"
        by blast
      with False Cons show ?thesis by simp
    next
      case True
      define ds where "ds = takeWhile decimal_digit u"
      define r where "r = dropWhile decimal_digit u"
      have u: "u = ds @ r" and dig: "\<forall>c\<in>set ds. decimal_digit c"
        and r: "r = [] \<or> \<not> decimal_digit (hd r)"
        using run_split [of u] by (simp_all add: ds_def r_def)
      have ne: "ds \<noteq> []" using True Cons by (simp add: ds_def)
      define R where "R = re_sub_number n2w True r"
      have hdR: "(R = [] \<longleftrightarrow> r = []) \<and> (r \<noteq> [] \<longrightarrow> hd R = hd r)"
        unfolding R_def by (rule re_sub_number_hd [OF r])
      then have R: "R = [] \<or> \<not> decimal_digit (hd R)"
        using r by auto
      have bR: "boundary True R = boundary True r"
        using hdR by (intro boundary_True_hd) auto
      have "length r < length u" using u ne by simp
      with 1 have ih: "re_sub_number n2w True R = R" unfolding R_def by blast
      show ?thesis
      proof (cases "\<not> pw \<and> boundary True r")
        case True
        define W where "W = n2w (int_of_digits ds)"
        have W: "\<forall>c\<in>set W. \<not> decimal_digit c"
          using n2w int_of_digits_nonneg [OF dig] unfolding W_def by blast
        have res: "re_sub_number n2w pw u = W @ R"
          using re_sub_number_run [OF ne dig r, of n2w pw] u True by (simp add: W_def R_def)
        have "re_sub_number n2w pw (W @ R)
              = W @ re_sub_number n2w (if W = [] then pw else word_char (last W)) R"
          by (rule re_sub_number_copy [OF W])
        also have "re_sub_number n2w (if W = [] then pw else word_char (last W)) R
                   = re_sub_number n2w True R"
          by (rule re_sub_number_pw_irrelevant [OF R])
        finally show ?thesis using res ih by simp
      next
        case False
        have res: "re_sub_number n2w pw u = ds @ R"
          using re_sub_number_run [OF ne dig r, of n2w pw] u False by (auto simp: R_def)
        have "re_sub_number n2w pw (ds @ R) = ds @ re_sub_number n2w True R"
          using re_sub_number_run [OF ne dig R, of n2w pw] False bR by auto
        with res ih show ?thesis by simp
      qed
    qed
  qed
qed

lemma traducir_by_separar:
  "traducir_numero_a_texto n2w s = re_sub_number n2w False (separar_spec s)"
  by (simp add: traducir_numero_a_texto_def separate)

text \<open>
  Claim C9. When \<open>num2words\<close> writes no decimal digit, the Number Normalizer applied to
  its own output returns that output, for every input string.
\<close>

theorem normalizer_idempotent:
  assumes "\<forall>n\<ge>0. \<forall>c\<in>set (n2w n). \<not> decimal_digit c"
  shows "traducir_numero_a_texto n2w (traducir_numero_a_texto n2w s)
         = traducir_numero_a_texto n2w s"
proof -
  let ?x = "re_sub_number n2w False (separar_spec s)"
  have "\<not> mixed ?x"
    by (rule not_mixed_re_sub_number [OF assms not_mixed_separar_spec])
  then have "separar_spec ?x = ?x" by (rule separar_spec_fixed)
  then have "traducir_numero_a_texto n2w ?x = re_sub_number n2w False ?x"
    by (simp add: traducir_by_separar)
  also have "\<dots> = ?x" by (rule re_sub_number_idem [OF assms])
  finally show ?thesis by (simp add: traducir_by_separar)
qed

theorem normalizer_idempotent_witness:
  "traducir_numero_a_texto digit_names ''a1b 2_ 3'' = ''a uno b 2_ tres''
   \<and> traducir_numero_a_texto digit_names ''a uno b 2_ tres'' = ''a uno b 2_ tres''"
proof -
  have h: "\<forall>n\<ge>0. \<forall>c\<in>set (digit_names n). \<not> decimal_digit c"
    by (auto simp: digit_names_def decimal_digit_def code_def)
  have e: "traducir_numero_a_texto digit_names ''a1b 2_ 3'' = ''a uno b 2_ tres''"
    by code_simp
  from normalizer_idempotent [OF h, of "''a1b 2_ 3''"] e show ?thesis by simp
qed

end
